theory Spec2Isabelle
  imports Main "HOL-Library.Multiset"
begin

section \<open>Values, errors and promises\<close>

text \<open>
  A thrown JavaScript value. The wrapper itself only ever builds one error, the generic
  one of its last statement; every other error comes from a rule, from the engine, from a
  collaborator or from the configured \<open>processError\<close>.
\<close>

datatype error = Error string

definition must_throw_error :: error where
  "must_throw_error = Error ''Something went wrong. processError function must throw an error''"

text \<open>Result data of the engine: JSON values; an object keeps the order of its keys.\<close>

datatype json =
    JNull
  | JString string
  | JList "json list"
  | JObject "(string \<times> json) list"

type_synonym objmap = "(string \<times> json) list"

type_synonym variables = "string \<rightharpoonup> json"

text \<open>
  \<open>ExecutionResult\<close> of the engine: \<open>data\<close> is an object map, or \<open>null\<close>/absent
  (\<open>None\<close>); \<open>errors\<close> are the errors the engine reports beside the data.
\<close>

record execution_result =
  data :: "objmap option"
  errors :: "error list"

record ('ctx, 'doc, 'schema) execution_args =
  schema :: 'schema
  document :: 'doc
  contextValue :: 'ctx
  variableValues :: "variables option"
  operationName :: "string option"

text \<open>
  Time is logical: a natural number that only grows at an \<open>await\<close>. A call of an
  asynchronous function either throws at once (\<open>Inl\<close>) or returns a promise that
  settles \<open>delay\<close> ticks after the call (\<open>Async\<close>); a function that returns a plain
  value is \<open>Async 0 (Inr v)\<close>. A promise that exists carries the absolute time at which
  it settles and what it settles with (\<open>Inl\<close>: rejected).
\<close>

datatype 'a async = Async (delay: nat) (result: "error + 'a")

datatype 'a promise = Promise (settles_at: nat) (settled: "error + 'a")

definition rejected :: "'a promise \<Rightarrow> bool" where
  "rejected p = isl (settled p)"

definition fulfilled :: "'a promise \<Rightarrow> bool" where
  "fulfilled p = (\<not> isl (settled p))"

definition promise_of :: "nat \<Rightarrow> 'a async \<Rightarrow> 'a promise" where
  "promise_of t a = Promise (t + delay a) (result a)"

text \<open>
  \<open>xs.map(x => f(x))\<close> where \<open>f\<close> may throw: the calls are made in order, the first
  throw ends the loop. \<open>started\<close> are the promises of the calls made before it,
  \<open>thrown\<close> is the error of that throw.
\<close>

fun started :: "nat \<Rightarrow> (error + 'a async) list \<Rightarrow> 'a promise list" where
  "started t [] = []"
| "started t (Inl e # cs) = []"
| "started t (Inr a # cs) = promise_of t a # started t cs"

fun thrown :: "(error + 'a async) list \<Rightarrow> error option" where
  "thrown [] = None"
| "thrown (Inl e # cs) = Some e"
| "thrown (Inr a # cs) = thrown cs"

text \<open>
  \<open>Promise.all\<close>: rejected as soon as one of the promises is rejected, with that
  promise's error (the first in the list among those rejected at the same tick);
  fulfilled, when none is rejected, once the last one is fulfilled.
\<close>

fun earliest_rejected :: "'a promise list \<Rightarrow> 'a promise option" where
  "earliest_rejected [] = None"
| "earliest_rejected (p # ps) =
     (case earliest_rejected ps of
        None \<Rightarrow> (if rejected p then Some p else None)
      | Some q \<Rightarrow> (if rejected p \<and> settles_at p \<le> settles_at q then Some p else Some q))"

definition promise_all :: "nat \<Rightarrow> 'a promise list \<Rightarrow> 'a list promise" where
  "promise_all t ps =
     (case earliest_rejected ps of
        Some p \<Rightarrow> Promise (max t (settles_at p)) (Inl (projl (settled p)))
      | None \<Rightarrow> Promise (fold max (map settles_at ps) t) (Inr (map (projr \<circ> settled) ps)))"

section \<open>The wrapper of the engine's execute function\<close>

text \<open>A compiled rule: \<open>rule.config.fieldArgs\<close> and \<open>rule.execute\<close>.\<close>

record ('ctx, 'fa) rule =
  fieldArgs :: 'fa
  execute :: "'ctx \<Rightarrow> 'fa \<Rightarrow> error + unit async"

record ('ctx, 'fa, 'post) compiled_rules =
  preExecutionRules :: "('ctx, 'fa) rule list"
  postExecutionRules :: 'post

text \<open>
  The functions \<open>wrap-execute-fn.ts\<close> imports from the other modules of the package,
  taken as parameters. Each may throw (\<open>Inl\<close>). \<open>compileRules\<close> is already applied to
  the \<open>rules\<close>, \<open>directiveName\<close>, \<open>authSchemaKey\<close> and \<open>authSchema\<close> of the
  configuration. \<open>executePostExecRules\<close> returns the promises of the evaluations it
  started.
\<close>

record ('ctx, 'doc, 'schema, 'fa, 'post, 'frag) collaborators =
  getFilteredDocument :: "'doc \<Rightarrow> string option \<Rightarrow> error + 'doc"
  compileRules :: "'doc \<Rightarrow> 'schema \<Rightarrow> variables \<Rightarrow> error + ('ctx, 'fa, 'post) compiled_rules"
  addSelectionSetsToDocument ::
    "'doc \<Rightarrow> ('ctx, 'fa, 'post) compiled_rules \<Rightarrow> 'schema \<Rightarrow> variables \<Rightarrow> error + 'doc"
  getFragmentDefinitions :: "'doc \<Rightarrow> error + 'frag"
  executePostExecRules ::
    "'ctx \<Rightarrow> 'schema \<Rightarrow> objmap \<Rightarrow> 'doc \<Rightarrow> ('ctx, 'fa, 'post) compiled_rules \<Rightarrow> 'frag \<Rightarrow> variables
       \<Rightarrow> error + unit async list"
  cleanupResult :: "'doc \<Rightarrow> 'schema \<Rightarrow> 'frag \<Rightarrow> variables \<Rightarrow> objmap \<Rightarrow> error + objmap"

text \<open>
  What one call of the wrapper did, in program order and stamped with the logical time:
  the calls of \<open>processError\<close>, of the engine, of \<open>executePostExecRules\<close> and of
  \<open>cleanupResult\<close>, and the two points where an \<open>await\<close> resumed normally.
\<close>

datatype event =
    PreRulesPassed
  | ProcessError error
  | EngineInvoked
  | EngineReturned
  | PostRulesStarted
  | CleanupResult
  | PostRulesPassed

record state =
  now :: nat
  trace :: "(nat \<times> event) list"
  pre_promises :: "unit promise list"
  post_promises :: "unit promise list"

record run =
  outcome :: "error + execution_result"
  final :: state

definition log :: "event \<Rightarrow> state \<Rightarrow> state" where
  "log ev s = s\<lparr>trace := trace s @ [(now s, ev)]\<rparr>"

definition await :: "'a promise \<Rightarrow> state \<Rightarrow> state" where
  "await p s = s\<lparr>now := max (now s) (settles_at p)\<rparr>"

definition initial :: state where
  "initial = \<lparr>now = 0, trace = [], pre_promises = [], post_promises = []\<rparr>"

text \<open>
  Lines 44 to 52: the first \<open>try\<close>. \<open>calls\<close> is what each \<open>rule.execute\<close> does, in
  the order of \<open>preExecutionRules\<close>. The result is \<open>Inl e\<close> when the \<open>catch\<close> block
  throws \<open>e\<close> (that is, when \<open>processError\<close> does), \<open>Inr ()\<close> when control reaches
  line 54.
\<close>

definition pre_phase ::
  "(error \<Rightarrow> error + unit) \<Rightarrow> (error + unit async) list \<Rightarrow> state \<Rightarrow> (error + unit) \<times> state" where
  "pre_phase processError calls s =
     (let s1 = s\<lparr>pre_promises := started (now s) calls\<rparr> in
      case thrown calls of
        Some e \<Rightarrow> (processError e, log (ProcessError e) s1)
      | None \<Rightarrow>
          (let p = promise_all (now s1) (pre_promises s1); s2 = await p s1 in
           case settled p of
             Inl e \<Rightarrow> (processError e, log (ProcessError e) s2)
           | Inr _ \<Rightarrow> (Inr (), log PreRulesPassed s2)))"

text \<open>Lines 60 to 87: the body of the second \<open>try\<close>; \<open>Inl e\<close> when it throws \<open>e\<close>.\<close>

definition post_body ::
  "('ctx, 'doc, 'schema, 'fa, 'post, 'frag) collaborators \<Rightarrow> ('ctx, 'doc, 'schema) execution_args
     \<Rightarrow> 'doc \<Rightarrow> ('ctx, 'fa, 'post) compiled_rules \<Rightarrow> variables \<Rightarrow> execution_result \<Rightarrow> state
     \<Rightarrow> (error + execution_result) \<times> state" where
  "post_body cb args filteredDocument compiledRules vars executionResult s =
     (case data executionResult of
        None \<Rightarrow> (Inr executionResult, s)
      | Some resultData \<Rightarrow>
          (case getFragmentDefinitions cb filteredDocument of
             Inl e \<Rightarrow> (Inl e, s)
           | Inr fragmentDefinitions \<Rightarrow>
               (case executePostExecRules cb (contextValue args) (schema args) resultData
                       filteredDocument compiledRules fragmentDefinitions vars of
                  Inl e \<Rightarrow> (Inl e, s)
                | Inr evaluations \<Rightarrow>
                    (let s1 = log PostRulesStarted
                                (s\<lparr>post_promises := map (promise_of (now s)) evaluations\<rparr>);
                         s2 = log CleanupResult s1 in
                     case cleanupResult cb filteredDocument (schema args) fragmentDefinitions vars
                            resultData of
                       Inl e \<Rightarrow> (Inl e, s2)
                     | Inr cleanResult \<Rightarrow>
                         (let p = promise_all (now s2) (post_promises s2); s3 = await p s2 in
                          case settled p of
                            Inl e \<Rightarrow> (Inl e, s3)
                          | Inr _ \<Rightarrow>
                              (Inr (executionResult\<lparr>data := Some cleanResult\<rparr>),
                               log PostRulesPassed s3))))))"

text \<open>Lines 59 to 94: the second \<open>try\<close> with its \<open>catch\<close> and the final \<open>throw\<close>.\<close>

definition post_phase ::
  "('ctx, 'doc, 'schema, 'fa, 'post, 'frag) collaborators \<Rightarrow> (error \<Rightarrow> error + unit)
     \<Rightarrow> ('ctx, 'doc, 'schema) execution_args
     \<Rightarrow> 'doc \<Rightarrow> ('ctx, 'fa, 'post) compiled_rules \<Rightarrow> variables \<Rightarrow> execution_result \<Rightarrow> state
     \<Rightarrow> run" where
  "post_phase cb processError args filteredDocument compiledRules vars executionResult s =
     (case post_body cb args filteredDocument compiledRules vars executionResult s of
        (Inr r, s') \<Rightarrow> \<lparr>outcome = Inr r, final = s'\<rparr>
      | (Inl e, s') \<Rightarrow>
          (case processError e of
             Inl e' \<Rightarrow> \<lparr>outcome = Inl e', final = log (ProcessError e) s'\<rparr>
           | Inr _ \<Rightarrow> \<lparr>outcome = Inl must_throw_error, final = log (ProcessError e) s'\<rparr>))"

text \<open>
  Lines 54 to 57 and what follows: the call of the engine with the augmented document.
  Nothing catches what the engine throws, at once or through its promise.
\<close>

definition engine_phase ::
  "('ctx, 'doc, 'schema, 'fa, 'post, 'frag) collaborators \<Rightarrow> (error \<Rightarrow> error + unit)
     \<Rightarrow> (('ctx, 'doc, 'schema) execution_args \<Rightarrow> error + execution_result async)
     \<Rightarrow> ('ctx, 'doc, 'schema) execution_args
     \<Rightarrow> 'doc \<Rightarrow> 'doc \<Rightarrow> ('ctx, 'fa, 'post) compiled_rules \<Rightarrow> variables \<Rightarrow> state \<Rightarrow> run" where
  "engine_phase cb processError executeFn args filteredDocument fullDocument compiledRules vars s =
     (let s1 = log EngineInvoked s in
      case executeFn (args\<lparr>document := fullDocument\<rparr>) of
        Inl e \<Rightarrow> \<lparr>outcome = Inl e, final = s1\<rparr>
      | Inr a \<Rightarrow>
          (let s2 = await (promise_of (now s1) a) s1 in
           case result a of
             Inl e \<Rightarrow> \<lparr>outcome = Inl e, final = s2\<rparr>
           | Inr executionResult \<Rightarrow>
               post_phase cb processError args filteredDocument compiledRules vars executionResult
                 (log EngineReturned s2)))"

text \<open>Line 22: \<open>args.variableValues || {}\<close>.\<close>

definition variables_of :: "('ctx, 'doc, 'schema) execution_args \<Rightarrow> variables" where
  "variables_of args = (case variableValues args of None \<Rightarrow> Map.empty | Some v \<Rightarrow> v)"

text \<open>Lines 46 to 48: what each \<open>rule.execute(args.contextValue, rule.config.fieldArgs)\<close> does.\<close>

definition pre_calls ::
  "('ctx, 'doc, 'schema) execution_args \<Rightarrow> ('ctx, 'fa, 'post) compiled_rules \<Rightarrow> (error + unit async) list" where
  "pre_calls args compiledRules =
     map (\<lambda>rule. execute rule (contextValue args) (fieldArgs rule)) (preExecutionRules compiledRules)"

text \<open>
  \<open>executeWrapper\<close>, the function \<open>wrapExecuteFn\<close> returns. \<open>cb\<close> and
  \<open>processError\<close> are what \<open>completeConfig(config)\<close> and the imports give it.
  What a collaborator throws before the first \<open>try\<close> (lines 22 to 42) rejects the
  wrapper's promise as it is.
\<close>

definition executeWrapper ::
  "('ctx, 'doc, 'schema, 'fa, 'post, 'frag) collaborators \<Rightarrow> (error \<Rightarrow> error + unit)
     \<Rightarrow> (('ctx, 'doc, 'schema) execution_args \<Rightarrow> error + execution_result async)
     \<Rightarrow> ('ctx, 'doc, 'schema) execution_args \<Rightarrow> run" where
  "executeWrapper cb processError executeFn args =
     (let vars = variables_of args in
      case getFilteredDocument cb (document args) (operationName args) of
        Inl e \<Rightarrow> \<lparr>outcome = Inl e, final = initial\<rparr>
      | Inr filteredDocument \<Rightarrow>
          (case compileRules cb filteredDocument (schema args) vars of
             Inl e \<Rightarrow> \<lparr>outcome = Inl e, final = initial\<rparr>
           | Inr compiledRules \<Rightarrow>
               (case addSelectionSetsToDocument cb filteredDocument compiledRules (schema args) vars of
                  Inl e \<Rightarrow> \<lparr>outcome = Inl e, final = initial\<rparr>
                | Inr fullDocument \<Rightarrow>
                    (case pre_phase processError (pre_calls args compiledRules) initial of
                       (Inl e, s) \<Rightarrow> \<lparr>outcome = Inl e, final = s\<rparr>
                     | (Inr _, s) \<Rightarrow>
                         engine_phase cb processError executeFn args filteredDocument fullDocument
                           compiledRules vars s))))"

text \<open>
  The preparation of lines 22 to 42 went through: the operation's document is \<open>fd\<close>,
  its compiled rules are \<open>cr\<close>, the augmented document is \<open>full\<close>.
\<close>

definition prepared ::
  "('ctx, 'doc, 'schema, 'fa, 'post, 'frag) collaborators \<Rightarrow> ('ctx, 'doc, 'schema) execution_args
     \<Rightarrow> 'doc \<Rightarrow> ('ctx, 'fa, 'post) compiled_rules \<Rightarrow> 'doc \<Rightarrow> bool" where
  "prepared cb args fd cr full =
     (getFilteredDocument cb (document args) (operationName args) = Inr fd \<and>
      compileRules cb fd (schema args) (variables_of args) = Inr cr \<and>
      addSelectionSetsToDocument cb fd cr (schema args) (variables_of args) = Inr full)"

text \<open>The engine's call throws \<open>e\<close>: at once, or by rejecting the promise it returned.\<close>

definition engine_throws :: "error + execution_result async \<Rightarrow> error \<Rightarrow> bool" where
  "engine_throws c e = (case c of Inl e' \<Rightarrow> e' = e | Inr a \<Rightarrow> result a = Inl e)"

text \<open>
  How a phase was left, in the state \<open>s\<close> right after it. \<open>handed_over e t s\<close>: the
  failure \<open>e\<close> was handed to \<open>processError\<close> at the tick \<open>t\<close>, and nothing happened
  after that call. \<open>at_first_rejection ps s\<close>: what was handed over is the earliest
  rejection among the promises \<open>ps\<close>, at the tick at which that promise settles.
  \<open>all_settled ps t\<close>: every promise of \<open>ps\<close> had settled by \<open>t\<close>.
\<close>

definition handed_over :: "error \<Rightarrow> nat \<Rightarrow> state \<Rightarrow> bool" where
  "handed_over e t s = (now s = t \<and> last (trace s) = (t, ProcessError e))"

definition at_first_rejection :: "unit promise list \<Rightarrow> state \<Rightarrow> bool" where
  "at_first_rejection ps s =
     (\<exists>q\<in>set ps. rejected q \<and> (\<forall>p\<in>set ps. rejected p \<longrightarrow> settles_at q \<le> settles_at p) \<and>
        handed_over (projl (settled q)) (settles_at q) s)"

definition all_settled :: "unit promise list \<Rightarrow> nat \<Rightarrow> bool" where
  "all_settled ps t = (\<forall>p\<in>set ps. settles_at p \<le> t)"

section \<open>The components behind the wrapper, modelled from the specification\<close>

text \<open>
  Of the package, only \<open>wrap-execute-fn.ts\<close> is at hand. The modules it imports
  (\<open>graphql-utils\<close>, \<open>rules-compiler\<close>, \<open>visit-selection-set\<close>, \<open>rule-executor\<close>,
  \<open>result-cleaner\<close>) are not, so the definitions of this section follow the words of
  sections 3 and 4 of the specification. They cover the Query Compiler and the Rule
  Executor; the Selection Augmentor and the Result Pruner stay parameters of the wrapper.
\<close>

text \<open>
  Modelled from the spec: the selection tree (the documents of \<open>graphql-utils\<close> are
  missing), as section 9 describes it: a node is a field name with its child selections;
  named fragments are already expanded in place and inline fragments are transparent
  (section 4.2). Field arguments are left out: they only feed the rule bodies, which are
  opaque.
\<close>

datatype selection = FieldNode (name: string) (selections: "selection list")

text \<open>
  Modelled from the spec: a RuleDefinition (section 3; the rule classes are missing) as the
  tagged variant of section 9: a \<open>pre\<close> rule decides on the context, a \<open>post\<close> rule on
  the context, the object value and the whole result, and carries its extra-selection
  requirement. An evaluation that raises counts as a denial (section 5), so an evaluation
  is a promise that is fulfilled (pass) or rejected (denial).
\<close>

datatype 'ctx rule_definition =
    PreRule "'ctx \<Rightarrow> unit async"
  | PostRule "'ctx \<Rightarrow> json \<Rightarrow> objmap \<Rightarrow> unit async" "selection list"

text \<open>
  Modelled from the spec: the Rule Registry of section 2 (missing with the rule classes):
  lookup of a definition by name.
\<close>

type_synonym 'ctx registry = "string \<rightharpoonup> 'ctx rule_definition"

text \<open>
  Modelled from the spec: what the Query Compiler reads from the schema and from the Rule
  Binder, both missing (sections 3 and 4.2): the root type, the declared return type of a
  field unwrapped through list and nullable wrappers, the TypeRuleBinding and the
  FieldRuleBinding.
\<close>

record bound_schema =
  queryType :: string
  fieldType :: "string \<Rightarrow> string \<Rightarrow> string"
  typeRules :: "string \<Rightarrow> string list"
  fieldRules :: "string \<Rightarrow> string \<Rightarrow> string list"

text \<open>
  Modelled from the spec: a post-instance of the CompiledRulePlan (section 3; the type is
  declared in the missing \<open>rules-compiler\<close>): the rule (its name and its evaluation), the
  SelectionPath of the field it was compiled at (the field names from the root; the
  list-index placeholders are implicit, see \<open>resolve\<close>), and the rule's extra-selection
  requirement.
\<close>

record 'ctx post_instance =
  rule_name :: string
  evaluate :: "'ctx \<Rightarrow> json \<Rightarrow> objmap \<Rightarrow> unit async"
  path :: "string list"
  extra :: "selection list"

text \<open>
  Modelled from the spec: the post-instances the Query Compiler (missing
  \<open>rules-compiler\<close>) emits at one field, for the rule names bound there (section 4.2): one
  per name that the registry knows as a \<open>post\<close> rule, with the current path.
\<close>

definition post_instances_at ::
  "'ctx registry \<Rightarrow> string list \<Rightarrow> string list \<Rightarrow> 'ctx post_instance list" where
  "post_instances_at reg here names =
     concat (map (\<lambda>n. case reg n of
                        Some (PostRule ev req) \<Rightarrow> [\<lparr>rule_name = n, evaluate = ev, path = here, extra = req\<rparr>]
                      | _ \<Rightarrow> []) names)"

text \<open>
  Modelled from the spec: the walk of the Query Compiler (missing \<open>rules-compiler\<close>,
  section 4.2) for \<open>post\<close> rules. At each field it looks up the FieldRuleBinding of
  (parent type, field) and the TypeRuleBinding of the field's return type, field rules
  first, emits the post-instances and recurses into the nested selection set.
\<close>

fun compile_post ::
  "bound_schema \<Rightarrow> 'ctx registry \<Rightarrow> string \<Rightarrow> string list \<Rightarrow> selection \<Rightarrow> 'ctx post_instance list" where
  "compile_post sch reg parent prefix (FieldNode f subs) =
     post_instances_at reg (prefix @ [f]) (fieldRules sch parent f @ typeRules sch (fieldType sch parent f))
     @ concat (map (compile_post sch reg (fieldType sch parent f) (prefix @ [f])) subs)"

text \<open>
  Modelled from the spec: the \<open>postInstances\<close> of the CompiledRulePlan of a query (missing
  \<open>rules-compiler\<close>, section 4.2): the walk from the root type.
\<close>

definition compile_post_plan :: "bound_schema \<Rightarrow> 'ctx registry \<Rightarrow> selection list \<Rightarrow> 'ctx post_instance list" where
  "compile_post_plan sch reg sels = concat (map (compile_post sch reg (queryType sch) []) sels)"

text \<open>
  Modelled from the spec: the pre-instances the Query Compiler (missing
  \<open>rules-compiler\<close>) emits at one field (section 4.2), as the rules the wrapper executes.
\<close>

definition pre_instances_at :: "'ctx registry \<Rightarrow> string list \<Rightarrow> ('ctx, unit) rule list" where
  "pre_instances_at reg names =
     concat (map (\<lambda>n. case reg n of
                        Some (PreRule ev) \<Rightarrow> [\<lparr>fieldArgs = (), execute = (\<lambda>ctx fa. Inr (ev ctx))\<rparr>]
                      | _ \<Rightarrow> []) names)"

text \<open>
  Modelled from the spec: the walk of the Query Compiler (missing \<open>rules-compiler\<close>,
  section 4.2) for \<open>pre\<close> rules.
\<close>

fun compile_pre :: "bound_schema \<Rightarrow> 'ctx registry \<Rightarrow> string \<Rightarrow> selection \<Rightarrow> ('ctx, unit) rule list" where
  "compile_pre sch reg parent (FieldNode f subs) =
     pre_instances_at reg (fieldRules sch parent f @ typeRules sch (fieldType sch parent f))
     @ concat (map (compile_pre sch reg (fieldType sch parent f)) subs)"

text \<open>
  Modelled from the spec: crossing list boundaries when a path is resolved (missing
  \<open>rule-executor\<close>, section 4.4): a value that is a list of lists of any depth expands to
  its elements; anything else is one occurrence.
\<close>

fun expand :: "json \<Rightarrow> json list" where
  "expand (JList vs) = concat (map expand vs)"
| "expand JNull = [JNull]"
| "expand (JString x) = [JString x]"
| "expand (JObject kvs) = [JObject kvs]"

text \<open>
  Modelled from the spec: one step of a SelectionPath (missing \<open>rule-executor\<close>, section
  4.4): the value of a field of an object; null, a scalar and an object without the field
  give nothing.
\<close>

fun field_of :: "string \<Rightarrow> json \<Rightarrow> json list" where
  "field_of f (JObject kvs) = (case map_of kvs f of None \<Rightarrow> [] | Some v \<Rightarrow> [v])"
| "field_of f v = []"

text \<open>
  Modelled from the spec: resolving a SelectionPath against the result data (missing
  \<open>rule-executor\<close>, section 4.4), which gives zero or more concrete occurrences.
\<close>

fun resolve :: "string list \<Rightarrow> json \<Rightarrow> json list" where
  "resolve [] v = expand v"
| "resolve (f # p) v = concat (map (\<lambda>obj. concat (map (resolve p) (field_of f obj))) (expand v))"

text \<open>
  Modelled from the spec: the post-execution phase of the Rule Executor (missing
  \<open>rule-executor\<close>, section 4.4). For each post-instance and each occurrence of its path
  whose value is not null, one evaluation is scheduled; null occurrences are skipped.
\<close>

definition scheduled :: "'ctx post_instance list \<Rightarrow> objmap \<Rightarrow> ('ctx post_instance \<times> json) list" where
  "scheduled insts resultData =
     concat (map (\<lambda>i. map (\<lambda>v. (i, v))
                         (filter (\<lambda>v. v \<noteq> JNull) (resolve (path i) (JObject resultData)))) insts)"

text \<open>
  Modelled from the spec: \<open>compileRules\<close> (missing \<open>rules-compiler\<close>), the Query
  Compiler of section 4.2 with the rules of the configuration.
\<close>

definition compileRules_spec ::
  "'ctx registry \<Rightarrow> selection list \<Rightarrow> bound_schema \<Rightarrow> variables
     \<Rightarrow> error + ('ctx, unit, 'ctx post_instance list) compiled_rules" where
  "compileRules_spec reg doc sch vars =
     Inr \<lparr>preExecutionRules = concat (map (compile_pre sch reg (queryType sch)) doc),
          postExecutionRules = compile_post_plan sch reg doc\<rparr>"

text \<open>
  Modelled from the spec: \<open>executePostExecRules\<close> (missing \<open>rule-executor\<close>), the
  post-execution phase of section 4.4: it starts every scheduled evaluation with the
  context, the object value and the whole result, and returns their promises.
\<close>

definition executePostExecRules_spec ::
  "'ctx \<Rightarrow> 'schema \<Rightarrow> objmap \<Rightarrow> 'doc \<Rightarrow> ('ctx, 'fa, 'ctx post_instance list) compiled_rules \<Rightarrow> 'frag
     \<Rightarrow> variables \<Rightarrow> error + unit async list" where
  "executePostExecRules_spec ctx sch resultData doc rules frags vars =
     Inr (map (\<lambda>(i, v). evaluate i ctx v resultData)
            (scheduled (postExecutionRules rules) resultData))"

section \<open>Notions used to state the properties of these components\<close>

text \<open>
  The values on which the rule named \<open>R\<close> is evaluated, among the scheduled evaluations,
  in their order.
\<close>

definition evaluated :: "string \<Rightarrow> ('ctx post_instance \<times> json) list \<Rightarrow> json list" where
  "evaluated R evs = map snd (filter (\<lambda>(i, v). rule_name i = R) evs)"

text \<open>
  The non-null concrete occurrences of the type \<open>T\<close> in a result, found by walking the
  result alone, every field typed by the schema: \<open>occurrences sch T ty v\<close> lists them in
  the value \<open>v\<close> of a field of declared type \<open>ty\<close>, the value itself included; null
  gives nothing and a list gives what its elements give. \<open>occurrences_in\<close> lists them in
  the fields of the result (the result itself is the value of no field).
\<close>

fun occurrences :: "bound_schema \<Rightarrow> string \<Rightarrow> string \<Rightarrow> json \<Rightarrow> json list" where
  "occurrences sch T ty JNull = []"
| "occurrences sch T ty (JList vs) = concat (map (occurrences sch T ty) vs)"
| "occurrences sch T ty (JString x) = (if ty = T then [JString x] else [])"
| "occurrences sch T ty (JObject kvs) =
     (if ty = T then [JObject kvs] else []) @
     concat (map (\<lambda>(k, w). occurrences sch T (fieldType sch ty k) w) kvs)"

definition occurrences_in :: "bound_schema \<Rightarrow> string \<Rightarrow> objmap \<Rightarrow> json list" where
  "occurrences_in sch T resultData =
     concat (map (\<lambda>(k, w). occurrences sch T (fieldType sch (queryType sch) k) w) resultData)"

text \<open>
  Every value that stands somewhere in a result: the value itself, the elements of a list
  and the values of the fields of an object, at any depth.
\<close>

fun subvalues :: "json \<Rightarrow> json list" where
  "subvalues JNull = [JNull]"
| "subvalues (JString x) = [JString x]"
| "subvalues (JList vs) = JList vs # concat (map subvalues vs)"
| "subvalues (JObject kvs) = JObject kvs # concat (map (\<lambda>(k, w). subvalues w) kvs)"









definition inside :: "bound_schema \<Rightarrow> string \<Rightarrow> string \<Rightarrow> json \<Rightarrow> json list" where
  "inside sch T ty obj =
     (case obj of
        JObject kvs \<Rightarrow> concat (map (\<lambda>(k, w). occurrences sch T (fieldType sch ty k) w) kvs)
      | _ \<Rightarrow> [])"

section \<open>Concrete executions\<close>

text \<open>
  Collaborators that leave the document as it is, compile the pre-execution rules
  \<open>pre\<close>, start the post-execution evaluations \<open>post\<close> and clean nothing away.
\<close>

definition plain_collaborators ::
  "(unit, unit) rule list \<Rightarrow> unit async list \<Rightarrow> (unit, unit, unit, unit, unit, unit) collaborators" where
  "plain_collaborators pre post =
     \<lparr>getFilteredDocument = (\<lambda>d name. Inr d),
      compileRules = (\<lambda>d sch vars. Inr \<lparr>preExecutionRules = pre, postExecutionRules = ()\<rparr>),
      addSelectionSetsToDocument = (\<lambda>d cr sch vars. Inr d),
      getFragmentDefinitions = (\<lambda>d. Inr ()),
      executePostExecRules = (\<lambda>ctx sch res d cr fr vars. Inr post),
      cleanupResult = (\<lambda>d sch fr vars res. Inr res)\<rparr>"

definition denied :: error where
  "denied = Error ''denied''"

text \<open>A pre-execution rule that denies after one tick, and one that passes after five.\<close>

definition denying_rule :: "(unit, unit) rule" where
  "denying_rule = \<lparr>fieldArgs = (), execute = (\<lambda>ctx fa. Inr (Async 1 (Inl denied)))\<rparr>"

definition slow_passing_rule :: "(unit, unit) rule" where
  "slow_passing_rule = \<lparr>fieldArgs = (), execute = (\<lambda>ctx fa. Inr (Async 5 (Inr ())))\<rparr>"

definition plain_args :: "(unit, unit, unit) execution_args" where
  "plain_args =
     \<lparr>schema = (), document = (), contextValue = (), variableValues = None, operationName = None\<rparr>"

definition user_result :: execution_result where
  "user_result = \<lparr>data = Some [(''user'', JNull)], errors = []\<rparr>"

text \<open>An engine that answers after two ticks, and one that throws.\<close>

definition answering_engine :: "(unit, unit, unit) execution_args \<Rightarrow> error + execution_result async" where
  "answering_engine a = Inr (Async 2 (Inr user_result))"

definition engine_failure :: error where
  "engine_failure = Error ''engine failure''"

definition rejecting_engine :: "(unit, unit, unit) execution_args \<Rightarrow> error + execution_result async" where
  "rejecting_engine a = Inr (Async 2 (Inl engine_failure))"

text \<open>The default \<open>processError\<close> rethrows; a misconfigured one returns.\<close>

definition rethrow :: "error \<Rightarrow> error + unit" where
  "rethrow e = Inl e"

definition swallow :: "error \<Rightarrow> error + unit" where
  "swallow e = Inr ()"

lemmas run_defs =
  executeWrapper_def pre_phase_def engine_phase_def post_phase_def post_body_def pre_calls_def
  variables_of_def promise_all_def promise_of_def rejected_def log_def await_def initial_def

lemmas fixture_defs =
  plain_collaborators_def denying_rule_def slow_passing_rule_def plain_args_def user_result_def
  answering_engine_def rejecting_engine_def rethrow_def swallow_def


text \<open>
  Collaborators that start one post-execution evaluation, which passes after four ticks,
  and whose pruner throws.
\<close>

definition pruner_failure :: error where
  "pruner_failure = Error ''pruner failure''"

definition throwing_pruner :: "(unit, unit, unit, unit, unit, unit) collaborators" where
  "throwing_pruner =
     (plain_collaborators [] [Async 4 (Inr ())])\<lparr>cleanupResult := (\<lambda>d sch fr vars res. Inl pruner_failure)\<rparr>"

subsection \<open>The schema and the data of the list tests\<close>

text \<open>
  The schema of \<open>__tests__/post-exec-rules/list.test.ts\<close>: \<open>Comment\<close> is bound to
  \<open>FailingPostExecRule\<close>, \<open>Like\<close> to \<open>PassingPostExecRule\<close>; and the queries and mock
  data of its tests.
\<close>

definition test_schema :: bound_schema where
  "test_schema =
     \<lparr>queryType = ''Query'',
      fieldType = (\<lambda>parent f.
         if f \<in> {''user'', ''userWithLikes'', ''userWithNullPosts'',
                  ''userWithCommentsAndLikesListOfLists'', ''userWithPostsAndLikesListOfLists'',
                  ''owner''} then ''User''
         else if f \<in> {''posts'', ''post''} then ''Post''
         else if f = ''comments'' then ''Comment''
         else if f \<in> {''likes'', ''likesListOfLists''} then ''Like''
         else if f = ''id'' then ''ID'' else ''String''),
      typeRules = (\<lambda>t. if t = ''Comment'' then [''FailingPostExecRule'']
                        else if t = ''Like'' then [''PassingPostExecRule''] else []),
      fieldRules = (\<lambda>t f. [])\<rparr>"

definition failing_rule :: "unit rule_definition" where
  "failing_rule = PostRule (\<lambda>ctx v whole. Async 1 (Inl denied)) []"

definition passing_rule :: "unit rule_definition" where
  "passing_rule = PostRule (\<lambda>ctx v whole. Async 1 (Inr ())) []"

definition test_rules :: "unit registry" where
  "test_rules = [''FailingPostExecRule'' \<mapsto> failing_rule, ''PassingPostExecRule'' \<mapsto> passing_rule]"

definition with_id :: "string \<Rightarrow> json" where
  "with_id i = JObject [(''id'', JString i)]"

definition user_query :: "selection list" where
  "user_query =
     [FieldNode ''user'' [FieldNode ''posts'' [FieldNode ''id'' []],
                          FieldNode ''comments'' [FieldNode ''id'' []]]]"

definition user_data :: objmap where
  "user_data = [(''user'', JObject [(''posts'', JList []), (''comments'', JList [with_id ''comment_id''])])]"

definition likes_of_lists_query :: "selection list" where
  "likes_of_lists_query =
     [FieldNode ''userWithCommentsAndLikesListOfLists''
        [FieldNode ''likesListOfLists'' [FieldNode ''id'' []],
         FieldNode ''comments'' [FieldNode ''id'' []]]]"

definition likes_of_lists_data :: objmap where
  "likes_of_lists_data =
     [(''userWithCommentsAndLikesListOfLists'', JObject
         [(''likesListOfLists'',
             JList [JList [JList [with_id ''like_id01'', with_id ''like_id02'']],
                    JList [JList [with_id ''like_id03'', with_id ''like_id04'']]]),
          (''comments'', JList [with_id ''comment_id''])])]"

definition likes_comments_query :: "selection list" where
  "likes_comments_query =
     [FieldNode ''userWithLikes''
        [FieldNode ''likes'' [FieldNode ''post'' [FieldNode ''comments'' [FieldNode ''id'' []]]]]]"

definition no_likes_data :: objmap where
  "no_likes_data = [(''userWithLikes'', JObject [(''likes'', JList [])])]"

definition test_args :: "selection list \<Rightarrow> (unit, selection list, bound_schema) execution_args" where
  "test_args q =
     \<lparr>schema = test_schema, document = q, contextValue = (), variableValues = None,
      operationName = None\<rparr>"

definition mock_engine ::
  "objmap \<Rightarrow> (unit, selection list, bound_schema) execution_args \<Rightarrow> error + execution_result async" where
  "mock_engine d a = Inr (Async 2 (Inr \<lparr>data = Some d, errors = []\<rparr>))"


text \<open>
  The query \<open>userWithLikes\<close> of the test "should handle empty lists nested", and a result
  in which the one like has a post without comments.
\<close>

definition post_without_comments_data :: objmap where
  "post_without_comments_data =
     [(''userWithLikes'', JObject
         [(''likes'', JList [JObject [(''post'', JObject [(''comments'', JList [])])]])])]"

text \<open>
  A query in which the selection set of \<open>user\<close> names \<open>comments\<close> twice, as it does once
  a named fragment that selects \<open>comments\<close> is expanded next to the field itself, with a
  result that holds one comment. And a query for the likes' \<open>id\<close> with a result in which
  the like also carries its post and the post's comment, fields the query did not select.
\<close>

definition comments_twice_query :: "selection list" where
  "comments_twice_query =
     [FieldNode ''user'' [FieldNode ''comments'' [FieldNode ''id'' []],
                          FieldNode ''comments'' [FieldNode ''id'' []]]]"

definition one_comment_data :: objmap where
  "one_comment_data = [(''user'', JObject [(''comments'', JList [with_id ''comment_id''])])]"

definition likes_query :: "selection list" where
  "likes_query = [FieldNode ''userWithLikes'' [FieldNode ''likes'' [FieldNode ''id'' []]]]"

definition like_with_post_data :: objmap where
  "like_with_post_data =
     [(''userWithLikes'', JObject
         [(''likes'', JList [JObject
             [(''id'', JString ''like_id''),
              (''post'', JObject [(''comments'', JList [with_id ''comment_id''])])]])])]"

text \<open>
  Modelled from the spec: the collaborators of the wrapper in these tests (all five modules
  are missing): the Query Compiler and the Rule Executor as modelled above; the
  operation's document is the selection tree itself and no fragment definitions are left
  to collect; in place of the augmentor and the pruner, which are not modelled, stand-ins
  that leave the document and the data as they are.
\<close>

definition test_collaborators ::
  "'ctx registry
     \<Rightarrow> ('ctx, selection list, bound_schema, unit, 'ctx post_instance list, unit) collaborators" where
  "test_collaborators reg =
     \<lparr>getFilteredDocument = (\<lambda>doc opname. Inr doc),
      compileRules = compileRules_spec reg,
      addSelectionSetsToDocument = (\<lambda>doc rules sch vars. Inr doc),
      getFragmentDefinitions = (\<lambda>doc. Inr ()),
      executePostExecRules = executePostExecRules_spec,
      cleanupResult = (\<lambda>doc sch frags vars resultData. Inr resultData)\<rparr>"

text \<open>
  The rules compiled for a query of the tests, and the state in which the first phase is
  left when there is no pre-execution rule.
\<close>

definition test_plan :: "selection list \<Rightarrow> (unit, unit, unit post_instance list) compiled_rules" where
  "test_plan q =
     \<lparr>preExecutionRules = [], postExecutionRules = compile_post_plan test_schema test_rules q\<rparr>"

definition passed_at_once :: state where
  "passed_at_once = \<lparr>now = 0, trace = [(0, PreRulesPassed)], pre_promises = [], post_promises = []\<rparr>"

lemmas spec_defs =
  compile_post_plan_def post_instances_at_def pre_instances_at_def scheduled_def evaluated_def
  occurrences_in_def compileRules_spec_def executePostExecRules_spec_def test_collaborators_def

lemmas test_defs =
  test_schema_def test_rules_def failing_rule_def passing_rule_def with_id_def
  likes_of_lists_query_def likes_of_lists_data_def likes_comments_query_def no_likes_data_def
  test_args_def mock_engine_def user_query_def user_data_def post_without_comments_data_def
  comments_twice_query_def one_comment_data_def likes_query_def like_with_post_data_def
  test_plan_def passed_at_once_def

section \<open>Properties of the wrapper\<close>

subsection \<open>Joining promises\<close>

lemma earliest_rejected_None: "earliest_rejected ps = None \<longleftrightarrow> (\<forall>p\<in>set ps. \<not> rejected p)"
  by (induction ps) (auto split: option.splits)

lemma earliest_rejected_Some:
  "earliest_rejected ps = Some q \<Longrightarrow>
   q \<in> set ps \<and> rejected q \<and> (\<forall>p\<in>set ps. rejected p \<longrightarrow> settles_at q \<le> settles_at p)"
proof (induction ps arbitrary: q)
  case Nil
  then show ?case by simp
next
  case (Cons p ps)
  show ?case
  proof (cases "earliest_rejected ps")
    case None
    with Cons.prems show ?thesis
      by (auto simp: earliest_rejected_None split: if_splits)
  next
    case (Some q')
    with Cons.prems Cons.IH [OF Some] show ?thesis
      by (auto split: if_splits)
  qed
qed

lemma fold_max_start: "(t::nat) \<le> fold max xs t"
  by (induction xs arbitrary: t) (auto intro: order_trans [OF max.cobounded2])

lemma fold_max_upper: "x \<in> set xs \<Longrightarrow> x \<le> fold max xs (t::nat)"
  by (induction xs arbitrary: t) (auto intro: order_trans [OF max.cobounded1 fold_max_start])

lemma started_not_before: "p \<in> set (started t calls) \<Longrightarrow> t \<le> settles_at p"
  by (induction t calls rule: started.induct) (auto simp: promise_of_def)

subsection \<open>Preparation and the first phase\<close>

lemma executeWrapper_prepared:
  "prepared cb args fd cr full \<Longrightarrow>
   executeWrapper cb pe ex args =
     (case pre_phase pe (pre_calls args cr) initial of
        (Inl e, s) \<Rightarrow> \<lparr>outcome = Inl e, final = s\<rparr>
      | (Inr _, s) \<Rightarrow> engine_phase cb pe ex args fd full cr (variables_of args) s)"
  by (simp add: prepared_def executeWrapper_def)

lemma pre_phase_trace:
  "pre_phase pe calls s = (r, s') \<Longrightarrow>
   \<exists>ev. trace s' = trace s @ [(now s', ev)] \<and> ev \<noteq> EngineInvoked"
  by (auto simp: pre_phase_def log_def await_def Let_def split: option.splits sum.splits)

subsection \<open>What the engine throws\<close>

text \<open>
  C10. When the engine's execute function throws, or rejects the promise it returned, the
  wrapper's own promise is rejected with that very error, whatever \<open>processError\<close> is, and
  the invocation of the engine is the last thing the wrapper did: \<open>processError\<close> is not
  called after it.
\<close>

theorem engine_exception_bypasses_processError:
  assumes "prepared cb args fd cr full"
    and "engine_throws (executeFn (args\<lparr>document := full\<rparr>)) e"
    and "(t, EngineInvoked) \<in> set (trace (final (executeWrapper cb processError executeFn args)))"
  shows "outcome (executeWrapper cb processError executeFn args) = Inl e \<and>
         last (trace (final (executeWrapper cb processError executeFn args))) = (t, EngineInvoked)"
proof -
  obtain r s where ph: "pre_phase processError (pre_calls args cr) initial = (r, s)"
    by (cases "pre_phase processError (pre_calls args cr) initial")
  from pre_phase_trace [OF ph] obtain ev where
    tr: "trace s = [(now s, ev)]" and ev: "ev \<noteq> EngineInvoked"
    by (auto simp: initial_def)
  show ?thesis
  proof (cases r)
    case (Inl e')
    with assms(1,3) ph tr ev show ?thesis
      by (simp add: executeWrapper_prepared)
  next
    case (Inr u)
    with assms ph tr ev show ?thesis
      by (auto simp: executeWrapper_prepared engine_phase_def engine_throws_def log_def await_def
          Let_def split: sum.splits)
  qed
qed

theorem engine_exception_bypasses_processError_witness:
  "prepared (plain_collaborators [slow_passing_rule] []) plain_args ()
     \<lparr>preExecutionRules = [slow_passing_rule], postExecutionRules = ()\<rparr> () \<and>
   engine_throws (rejecting_engine (plain_args\<lparr>document := ()\<rparr>)) engine_failure \<and>
   (5, EngineInvoked) \<in> set (trace (final (executeWrapper
       (plain_collaborators [slow_passing_rule] []) swallow rejecting_engine plain_args))) \<and>
   outcome (executeWrapper (plain_collaborators [slow_passing_rule] []) swallow rejecting_engine
              plain_args) = Inl engine_failure \<and>
   last (trace (final (executeWrapper (plain_collaborators [slow_passing_rule] []) swallow
                         rejecting_engine plain_args))) = (5, EngineInvoked)"
proof -
  have p: "prepared (plain_collaborators [slow_passing_rule] []) plain_args ()
             \<lparr>preExecutionRules = [slow_passing_rule], postExecutionRules = ()\<rparr> ()"
    by (simp add: prepared_def fixture_defs)
  have e: "engine_throws (rejecting_engine (plain_args\<lparr>document := ()\<rparr>)) engine_failure"
    by (simp add: engine_throws_def fixture_defs)
  have i: "(5, EngineInvoked) \<in> set (trace (final (executeWrapper
             (plain_collaborators [slow_passing_rule] []) swallow rejecting_engine plain_args)))"
    by (simp add: run_defs fixture_defs)
  from engine_exception_bypasses_processError [OF p e i] p e i show ?thesis
    by simp
qed

subsection \<open>A pre-execution failure that processError does not rethrow\<close>

text \<open>
  With a \<open>processError\<close> that always throws, a failure of the first phase ends the
  operation with an error before the engine is invoked, and the engine is invoked only
  once every pre-execution evaluation has been fulfilled. A failure of the second phase
  ends the operation with an error whatever \<open>processError\<close> does: with its error, or with
  the generic one of line 92 when it returns.
\<close>

lemma pre_phase_passes:
  assumes "\<And>e. isl (pe e)" and "pre_phase pe calls s = (Inr u, s')"
  shows "thrown calls = None \<and> pre_promises s' = started (now s) calls \<and>
         (\<forall>p\<in>set (started (now s) calls). fulfilled p \<and> settles_at p \<le> now s') \<and>
         trace s' = trace s @ [(now s', PreRulesPassed)]"
proof (cases "thrown calls")
  case (Some e)
  with assms(2) assms(1) [of e] show ?thesis
    by (auto simp: pre_phase_def Let_def)
next
  case None
  let ?ps = "started (now s) calls"
  show ?thesis
  proof (cases "earliest_rejected ?ps")
    case (Some q)
    with None assms(2) assms(1) [of "projl (settled q)"] show ?thesis
      by (auto simp: pre_phase_def promise_all_def Let_def)
  next
    case n: None
    then have f: "\<forall>p\<in>set ?ps. fulfilled p"
      by (simp add: earliest_rejected_None fulfilled_def rejected_def)
    have m: "max (now s) (fold max (map settles_at ?ps) (now s)) = fold max (map settles_at ?ps) (now s)"
      using fold_max_start [of "now s" "map settles_at ?ps"] by simp
    from None n assms(2) f m show ?thesis
      by (auto simp: pre_phase_def promise_all_def log_def await_def Let_def fold_max_upper)
  qed
qed

lemma rethrown_pre_failure_aborts:
  assumes "prepared cb args fd cr full" and "\<And>e. isl (pe e)"
    and "thrown (pre_calls args cr) \<noteq> None \<or> (\<exists>p\<in>set (started 0 (pre_calls args cr)). rejected p)"
  shows "isl (outcome (executeWrapper cb pe ex args)) \<and>
         (\<forall>t. (t, EngineInvoked) \<notin> set (trace (final (executeWrapper cb pe ex args))))"
proof -
  obtain x s where ph: "pre_phase pe (pre_calls args cr) initial = (x, s)"
    by (cases "pre_phase pe (pre_calls args cr) initial")
  show ?thesis
  proof (cases x)
    case (Inl e)
    from pre_phase_trace [OF ph] obtain ev where "trace s = [(now s, ev)]" "ev \<noteq> EngineInvoked"
      by (auto simp: initial_def)
    with Inl ph assms(1) show ?thesis
      by (simp add: executeWrapper_prepared)
  next
    case (Inr u)
    with pre_phase_passes [where pe = pe and calls = "pre_calls args cr" and s = initial
        and u = u and s' = s, OF assms(2)] ph assms(3)
    show ?thesis
      by (auto simp: initial_def fulfilled_def rejected_def)
  qed
qed

lemma engine_phase_invocation:
  assumes "\<forall>t. (t, EngineInvoked) \<notin> set (trace s)"
  shows "pre_promises (final (engine_phase cb pe ex args fd full cr vars s)) = pre_promises s \<and>
         (\<forall>t. (t, EngineInvoked) \<in> set (trace (final (engine_phase cb pe ex args fd full cr vars s)))
               \<longrightarrow> t = now s)"
  using assms
  by (auto simp: engine_phase_def post_phase_def post_body_def log_def await_def Let_def
      split: sum.splits option.splits)

lemma engine_invoked_after_pre_rules_passed:
  assumes "prepared cb args fd cr full" and "\<And>e. isl (pe e)"
    and "(t, EngineInvoked) \<in> set (trace (final (executeWrapper cb pe ex args)))"
  shows "thrown (pre_calls args cr) = None \<and>
         pre_promises (final (executeWrapper cb pe ex args)) = started 0 (pre_calls args cr) \<and>
         (\<forall>p\<in>set (started 0 (pre_calls args cr)). fulfilled p \<and> settles_at p \<le> t)"
proof -
  obtain x s where ph: "pre_phase pe (pre_calls args cr) initial = (x, s)"
    by (cases "pre_phase pe (pre_calls args cr) initial")
  from pre_phase_trace [OF ph] obtain ev where tr: "trace s = [(now s, ev)]" "ev \<noteq> EngineInvoked"
    by (auto simp: initial_def)
  show ?thesis
  proof (cases x)
    case (Inl e)
    with ph assms(1,3) tr show ?thesis
      by (simp add: executeWrapper_prepared)
  next
    case (Inr u)
    from tr have "\<forall>t. (t, EngineInvoked) \<notin> set (trace s)"
      by simp
    from engine_phase_invocation [OF this, of cb pe ex args fd full cr "variables_of args"]
      Inr ph assms(1,3)
    have "pre_promises (final (executeWrapper cb pe ex args)) = pre_promises s" and "t = now s"
      by (simp_all add: executeWrapper_prepared)
    with pre_phase_passes [where pe = pe and calls = "pre_calls args cr" and s = initial
        and u = u and s' = s, OF assms(2)] ph Inr
    show ?thesis
      by (simp add: initial_def)
  qed
qed

lemma swallowed_post_failure_raises_generic_error:
  assumes "post_body cb args fd cr vars res s = (Inl e, s')" and "pe e = Inr u"
  shows "outcome (post_phase cb pe args fd cr vars res s) = Inl must_throw_error"
  using assms by (simp add: post_phase_def)

lemma post_failure_fails_operation:
  assumes "post_body cb args fd cr vars res s = (Inl e, s')"
  shows "isl (outcome (post_phase cb pe args fd cr vars res s))"
  using assms by (simp add: post_phase_def split: sum.splits)

lemma post_denial_fails_operation:
  assumes "data res = Some rd"
    and "getFragmentDefinitions cb fd = Inr fr"
    and "executePostExecRules cb (contextValue args) (schema args) rd fd cr fr vars = Inr evals"
    and "\<exists>p\<in>set (map (promise_of (now s)) evals). rejected p"
  shows "isl (outcome (post_phase cb pe args fd cr vars res s))"
proof -
  from assms(4) obtain q where "earliest_rejected (map (promise_of (now s)) evals) = Some q"
    by (cases "earliest_rejected (map (promise_of (now s)) evals)") (auto simp: earliest_rejected_None)
  with assms(1-3) obtain e s' where "post_body cb args fd cr vars res s = (Inl e, s')"
    by (cases "cleanupResult cb fd (schema args) fr vars rd")
       (auto simp: post_body_def promise_all_def log_def Let_def)
  then show ?thesis
    by (rule post_failure_fails_operation)
qed

text \<open>
  The \<open>catch\<close> block of the first \<open>try\<close> (line 51) calls \<open>processError\<close> and, unlike
  the second one (lines 89 to 94), has no \<open>throw\<close> behind it. With a \<open>processError\<close> that
  returns, control goes on to line 54. The execution below has two pre-execution rules, one
  denying after one tick and one passing after five, and no post-execution evaluation.
\<close>

text \<open>
  C1. At this execution a compiled pre-execution rule instance denies, and the wrapper
  returns the engine's data.
\<close>

theorem swallowed_pre_denial_returns_data:
  "outcome (executeWrapper (plain_collaborators [denying_rule, slow_passing_rule] []) swallow
              answering_engine plain_args)
     = Inr \<lparr>data = Some [(''user'', JNull)], errors = []\<rparr>"
  by (simp add: run_defs fixture_defs)

text \<open>
  C2. At this execution a pre-execution rule instance denies at tick 1, and the engine is
  invoked at tick 1.
\<close>

theorem swallowed_pre_denial_invokes_engine:
  "pre_promises (final (executeWrapper (plain_collaborators [denying_rule, slow_passing_rule] [])
                          swallow answering_engine plain_args))
     = [Promise 1 (Inl denied), Promise 5 (Inr ())] \<and>
   (1, EngineInvoked) \<in> set (trace (final (executeWrapper
        (plain_collaborators [denying_rule, slow_passing_rule] []) swallow answering_engine
        plain_args)))"
  by (simp add: run_defs fixture_defs)

text \<open>
  C3. At this execution \<open>processError\<close> is handed the pre-execution denial and returns; the
  wrapper does not raise the generic error, it returns a result.
\<close>

theorem swallowed_pre_denial_raises_no_generic_error:
  "(1, ProcessError denied) \<in> set (trace (final (executeWrapper
        (plain_collaborators [denying_rule, slow_passing_rule] []) swallow answering_engine
        plain_args))) \<and>
   swallow denied = Inr () \<and>
   outcome (executeWrapper (plain_collaborators [denying_rule, slow_passing_rule] []) swallow
              answering_engine plain_args) \<noteq> Inl must_throw_error \<and>
   \<not> isl (outcome (executeWrapper (plain_collaborators [denying_rule, slow_passing_rule] []) swallow
                    answering_engine plain_args))"
  by (simp add: run_defs fixture_defs)

text \<open>
  C4. At this execution the engine is invoked at tick 1, after one pre-execution evaluation
  was rejected and while the other one is still pending (it settles at tick 5).
\<close>

theorem engine_invoked_after_failed_pre_evaluation:
  "final (executeWrapper (plain_collaborators [denying_rule, slow_passing_rule] []) swallow
            answering_engine plain_args)
     = \<lparr>now = 3,
        trace = [(1, ProcessError denied), (1, EngineInvoked), (3, EngineReturned),
                 (3, PostRulesStarted), (3, CleanupResult), (3, PostRulesPassed)],
        pre_promises = [Promise 1 (Inl denied), Promise 5 (Inr ())],
        post_promises = []\<rparr>"
  by (simp add: run_defs fixture_defs)

subsection \<open>When a failing phase hands its failure over\<close>

lemma pre_phase_join:
  assumes "thrown calls = None"
  shows "pre_promises (snd (pre_phase pe calls s)) = started (now s) calls"
    and "\<exists>q\<in>set (started (now s) calls). rejected q \<Longrightarrow>
         \<exists>q\<in>set (started (now s) calls). rejected q \<and>
            (\<forall>p\<in>set (started (now s) calls). rejected p \<longrightarrow> settles_at q \<le> settles_at p) \<and>
            now (snd (pre_phase pe calls s)) = settles_at q \<and>
            last (trace (snd (pre_phase pe calls s))) = (settles_at q, ProcessError (projl (settled q)))"
    and "\<forall>p\<in>set (started (now s) calls). fulfilled p \<Longrightarrow>
         (\<forall>p\<in>set (started (now s) calls). settles_at p \<le> now (snd (pre_phase pe calls s))) \<and>
         last (trace (snd (pre_phase pe calls s))) = (now (snd (pre_phase pe calls s)), PreRulesPassed)"
proof -
  let ?ps = "started (now s) calls"
  show "pre_promises (snd (pre_phase pe calls s)) = ?ps"
    using assms
    by (simp add: pre_phase_def log_def await_def Let_def split: sum.splits)
  show "\<exists>q\<in>set ?ps. rejected q \<and>
            (\<forall>p\<in>set ?ps. rejected p \<longrightarrow> settles_at q \<le> settles_at p) \<and>
            now (snd (pre_phase pe calls s)) = settles_at q \<and>
            last (trace (snd (pre_phase pe calls s))) = (settles_at q, ProcessError (projl (settled q)))"
    if "\<exists>q\<in>set ?ps. rejected q"
  proof -
    from that obtain q where q: "earliest_rejected ?ps = Some q"
      by (cases "earliest_rejected ?ps") (auto simp: earliest_rejected_None)
    from earliest_rejected_Some [OF q] have
      m: "q \<in> set ?ps" "rejected q" "\<forall>p\<in>set ?ps. rejected p \<longrightarrow> settles_at q \<le> settles_at p"
      by auto
    from started_not_before [OF m(1)] have "max (now s) (settles_at q) = settles_at q"
      by simp
    with assms q have
      "now (snd (pre_phase pe calls s)) = settles_at q \<and>
       last (trace (snd (pre_phase pe calls s))) = (settles_at q, ProcessError (projl (settled q)))"
      by (simp add: pre_phase_def promise_all_def log_def await_def Let_def)
    with m show ?thesis by blast
  qed
  show "(\<forall>p\<in>set ?ps. settles_at p \<le> now (snd (pre_phase pe calls s))) \<and>
         last (trace (snd (pre_phase pe calls s))) = (now (snd (pre_phase pe calls s)), PreRulesPassed)"
    if "\<forall>p\<in>set ?ps. fulfilled p"
  proof -
    from that have n: "earliest_rejected ?ps = None"
      by (simp add: earliest_rejected_None fulfilled_def rejected_def)
    have "max (now s) (fold max (map settles_at ?ps) (now s)) = fold max (map settles_at ?ps) (now s)"
      using fold_max_start [of "now s" "map settles_at ?ps"] by simp
    with assms n show ?thesis
      by (simp add: pre_phase_def promise_all_def log_def await_def Let_def fold_max_upper)
  qed
qed

lemma promise_of_not_before: "p \<in> set (map (promise_of t) evals) \<Longrightarrow> t \<le> settles_at p"
  by (auto simp: promise_of_def)

lemma post_phase_join:
  assumes "data res = Some rd"
    and "getFragmentDefinitions cb fd = Inr fr"
    and "executePostExecRules cb (contextValue args) (schema args) rd fd cr fr vars = Inr evals"
    and "cleanupResult cb fd (schema args) fr vars rd = Inr clean"
  shows "post_promises (final (post_phase cb pe args fd cr vars res s)) = map (promise_of (now s)) evals"
    and "\<exists>q\<in>set (map (promise_of (now s)) evals). rejected q \<Longrightarrow>
         at_first_rejection (map (promise_of (now s)) evals)
           (final (post_phase cb pe args fd cr vars res s))"
    and "\<not> (\<exists>q\<in>set (map (promise_of (now s)) evals). rejected q) \<Longrightarrow>
         all_settled (map (promise_of (now s)) evals) (now (final (post_phase cb pe args fd cr vars res s)))"
proof -
  let ?ps = "map (promise_of (now s)) evals"
  let ?r = "post_phase cb pe args fd cr vars res s"
  show "post_promises (final ?r) = ?ps"
    using assms
    by (simp add: post_phase_def post_body_def log_def await_def Let_def split: sum.splits)
  show "at_first_rejection ?ps (final ?r)" if "\<exists>q\<in>set ?ps. rejected q"
  proof -
    from that obtain q where q: "earliest_rejected ?ps = Some q"
      by (cases "earliest_rejected ?ps") (auto simp: earliest_rejected_None)
    from earliest_rejected_Some [OF q] have
      m: "q \<in> set ?ps" "rejected q" "\<forall>p\<in>set ?ps. rejected p \<longrightarrow> settles_at q \<le> settles_at p"
      by auto
    from promise_of_not_before [OF m(1)] have "max (now s) (settles_at q) = settles_at q"
      by simp
    with assms q have
      "now (final ?r) = settles_at q \<and>
       last (trace (final ?r)) = (settles_at q, ProcessError (projl (settled q)))"
      by (simp add: post_phase_def post_body_def promise_all_def log_def await_def Let_def
          split: sum.splits)
    with m show ?thesis
      unfolding at_first_rejection_def handed_over_def by blast
  qed
  show "all_settled ?ps (now (final ?r))" if "\<not> (\<exists>q\<in>set ?ps. rejected q)"
  proof -
    from that have n: "earliest_rejected ?ps = None"
      by (simp add: earliest_rejected_None)
    have "max (now s) (fold max (map settles_at ?ps) (now s)) = fold max (map settles_at ?ps) (now s)"
      using fold_max_start [of "now s" "map settles_at ?ps"] by simp
    with assms n show ?thesis
      unfolding all_settled_def
      by (simp add: post_phase_def post_body_def promise_all_def log_def await_def Let_def
          fold_max_upper)
  qed
qed


lemma pre_phase_thrown:
  assumes "thrown calls = Some e"
  shows "pre_promises (snd (pre_phase pe calls s)) = started (now s) calls"
    and "handed_over e (now s) (snd (pre_phase pe calls s))"
  using assms by (simp_all add: pre_phase_def log_def handed_over_def)

lemma pre_phase_left:
  "pre_promises (snd (pre_phase pe calls s)) = started (now s) calls \<and>
   (case thrown calls of
      Some e \<Rightarrow> handed_over e (now s) (snd (pre_phase pe calls s))
    | None \<Rightarrow>
        if \<exists>q\<in>set (started (now s) calls). rejected q
        then at_first_rejection (started (now s) calls) (snd (pre_phase pe calls s))
        else all_settled (started (now s) calls) (now (snd (pre_phase pe calls s))) \<and>
             last (trace (snd (pre_phase pe calls s)))
               = (now (snd (pre_phase pe calls s)), PreRulesPassed))"
proof (cases "thrown calls")
  case (Some e)
  then show ?thesis
    using pre_phase_thrown [OF Some, where pe = pe and s = s] by simp
next
  case None
  have "at_first_rejection (started (now s) calls) (snd (pre_phase pe calls s))"
    if "\<exists>q\<in>set (started (now s) calls). rejected q"
    using pre_phase_join(2) [OF None that]
    by (simp add: at_first_rejection_def handed_over_def)
  moreover have "all_settled (started (now s) calls) (now (snd (pre_phase pe calls s))) \<and>
      last (trace (snd (pre_phase pe calls s))) = (now (snd (pre_phase pe calls s)), PreRulesPassed)"
    if "\<not> (\<exists>q\<in>set (started (now s) calls). rejected q)"
    using pre_phase_join(3) [OF None, of s pe] that
    by (simp add: all_settled_def fulfilled_def rejected_def)
  ultimately show ?thesis
    using pre_phase_join(1) [OF None, where pe = pe and s = s] None by simp
qed

lemma post_phase_left:
  "(case data res of
      None \<Rightarrow> post_phase cb pe args fd cr vars res s = \<lparr>outcome = Inr res, final = s\<rparr>
    | Some rd \<Rightarrow>
        (case getFragmentDefinitions cb fd of
           Inl e \<Rightarrow> handed_over e (now s) (final (post_phase cb pe args fd cr vars res s))
         | Inr fr \<Rightarrow>
             (case executePostExecRules cb (contextValue args) (schema args) rd fd cr fr vars of
                Inl e \<Rightarrow> handed_over e (now s) (final (post_phase cb pe args fd cr vars res s))
              | Inr evals \<Rightarrow>
                  post_promises (final (post_phase cb pe args fd cr vars res s))
                    = map (promise_of (now s)) evals \<and>
                  (case cleanupResult cb fd (schema args) fr vars rd of
                     Inl e \<Rightarrow> handed_over e (now s) (final (post_phase cb pe args fd cr vars res s))
                   | Inr clean \<Rightarrow>
                       if \<exists>q\<in>set (map (promise_of (now s)) evals). rejected q
                       then at_first_rejection (map (promise_of (now s)) evals)
                              (final (post_phase cb pe args fd cr vars res s))
                       else all_settled (map (promise_of (now s)) evals)
                              (now (final (post_phase cb pe args fd cr vars res s))) \<and>
                            outcome (post_phase cb pe args fd cr vars res s)
                              = Inr (res\<lparr>data := Some clean\<rparr>)))))"
proof (cases "data res")
  case None
  then show ?thesis by (simp add: post_phase_def post_body_def)
next
  case (Some rd)
  show ?thesis
  proof (cases "getFragmentDefinitions cb fd")
    case (Inl e)
    with Some show ?thesis
      by (simp add: post_phase_def post_body_def log_def handed_over_def split: sum.splits)
  next
    case (Inr fr)
    show ?thesis
    proof (cases "executePostExecRules cb (contextValue args) (schema args) rd fd cr fr vars")
      case (Inl e)
      with Some Inr show ?thesis
        by (simp add: post_phase_def post_body_def log_def handed_over_def split: sum.splits)
    next
      case evals: (Inr evals)
      show ?thesis
      proof (cases "cleanupResult cb fd (schema args) fr vars rd")
        case (Inl e)
        with Some Inr evals show ?thesis
          by (simp add: post_phase_def post_body_def log_def handed_over_def Let_def
              split: sum.splits)
      next
        case clean: (Inr clean)
        have "outcome (post_phase cb pe args fd cr vars res s) = Inr (res\<lparr>data := Some clean\<rparr>)"
          if "\<not> (\<exists>q\<in>set (map (promise_of (now s)) evals). rejected q)"
        proof -
          from that have "earliest_rejected (map (promise_of (now s)) evals) = None"
            by (simp add: earliest_rejected_None)
          with Some Inr evals clean show ?thesis
            by (simp add: post_phase_def post_body_def promise_all_def log_def await_def Let_def)
        qed
        with Some Inr evals clean post_phase_join [OF Some Inr evals clean, where pe = pe and s = s]
        show ?thesis
          by simp
      qed
    qed
  qed
qed

text \<open>
  C5, as the claim states it, fails: with the default \<open>processError\<close>, a pre-execution
  rule that denies after one tick and a sibling that passes after five, the denial is handed
  to \<open>processError\<close> at tick 1 and the operation ends at tick 1, while the sibling's
  promise settles only at tick 5. \<open>Promise.all\<close> does not wait for it.
\<close>

theorem first_rejection_leaves_sibling_pending:
  "final (executeWrapper (plain_collaborators [denying_rule, slow_passing_rule] []) rethrow
            answering_engine plain_args)
     = \<lparr>now = 1, trace = [(1, ProcessError denied)],
        pre_promises = [Promise 1 (Inl denied), Promise 5 (Inr ())], post_promises = []\<rparr> \<and>
   outcome (executeWrapper (plain_collaborators [denying_rule, slow_passing_rule] []) rethrow
              answering_engine plain_args) = Inl denied \<and>
   \<not> all_settled [Promise 1 (Inl denied), Promise 5 (Inr ())] 1"
  by (simp add: run_defs fixture_defs all_settled_def)


text \<open>
  C5, amended. In each phase a failure is handed to \<open>processError\<close> as soon as it
  occurs, and what is still pending then is not awaited. In the first phase (lines 44 to
  52): when a rule throws at its call, at that very tick and with the thrown error, the
  promises of the rules called before it being left behind; otherwise, when the promise of
  some rule is rejected, at the tick of the earliest rejection and with that promise's
  error; only when none is rejected is the phase left once every promise has settled. In
  the second phase (lines 59 to 94), for a result with data: when
  \<open>getFragmentDefinitions\<close>, \<open>executePostExecRules\<close> or \<open>cleanupResult\<close> throws, at that
  very tick and with the thrown error (when it is \<open>cleanupResult\<close>, the evaluations are
  already started); otherwise, when some evaluation is rejected, at the tick of the
  earliest rejection and with its error; only when none is rejected is the phase left once
  every evaluation has settled, with the cleaned data. A result without data is returned
  as it is, no evaluation being started.
\<close>

theorem failure_handed_over_as_soon_as_it_occurs:
  "(pre_promises (snd (pre_phase pe calls s)) = started (now s) calls \<and>
    (case thrown calls of
       Some e \<Rightarrow> handed_over e (now s) (snd (pre_phase pe calls s))
     | None \<Rightarrow>
         if \<exists>q\<in>set (started (now s) calls). rejected q
         then at_first_rejection (started (now s) calls) (snd (pre_phase pe calls s))
         else all_settled (started (now s) calls) (now (snd (pre_phase pe calls s))) \<and>
              last (trace (snd (pre_phase pe calls s)))
                = (now (snd (pre_phase pe calls s)), PreRulesPassed))) \<and>
   (case data res of
      None \<Rightarrow> post_phase cb pe args fd cr vars res s' = \<lparr>outcome = Inr res, final = s'\<rparr>
    | Some rd \<Rightarrow>
        (case getFragmentDefinitions cb fd of
           Inl e \<Rightarrow> handed_over e (now s') (final (post_phase cb pe args fd cr vars res s'))
         | Inr fr \<Rightarrow>
             (case executePostExecRules cb (contextValue args) (schema args) rd fd cr fr vars of
                Inl e \<Rightarrow> handed_over e (now s') (final (post_phase cb pe args fd cr vars res s'))
              | Inr evals \<Rightarrow>
                  post_promises (final (post_phase cb pe args fd cr vars res s'))
                    = map (promise_of (now s')) evals \<and>
                  (case cleanupResult cb fd (schema args) fr vars rd of
                     Inl e \<Rightarrow> handed_over e (now s') (final (post_phase cb pe args fd cr vars res s'))
                   | Inr clean \<Rightarrow>
                       if \<exists>q\<in>set (map (promise_of (now s')) evals). rejected q
                       then at_first_rejection (map (promise_of (now s')) evals)
                              (final (post_phase cb pe args fd cr vars res s'))
                       else all_settled (map (promise_of (now s')) evals)
                              (now (final (post_phase cb pe args fd cr vars res s'))) \<and>
                            outcome (post_phase cb pe args fd cr vars res s')
                              = Inr (res\<lparr>data := Some clean\<rparr>)))))"
  using pre_phase_left [where pe = pe and calls = calls and s = s]
    post_phase_left [where res = res and cb = cb and pe = pe and args = args and fd = fd and cr = cr
      and vars = vars and s = s']
  by (rule conjI)

theorem failure_handed_over_as_soon_as_it_occurs_witness:
  "at_first_rejection [Promise 1 (Inl denied), Promise 5 (Inr ())]
     (snd (pre_phase rethrow [Inr (Async 1 (Inl denied)), Inr (Async 5 (Inr ()))] initial)) \<and>
   at_first_rejection [Promise 3 (Inl denied), Promise 1 (Inr ())]
     (final (post_phase (plain_collaborators [] [Async 3 (Inl denied), Async 1 (Inr ())]) rethrow
               plain_args () \<lparr>preExecutionRules = [], postExecutionRules = ()\<rparr> Map.empty
               user_result initial)) \<and>
   pre_promises (snd (pre_phase rethrow [Inr (Async 5 (Inr ())), Inl denied] initial))
     = [Promise 5 (Inr ())] \<and>
   handed_over denied 0 (snd (pre_phase rethrow [Inr (Async 5 (Inr ())), Inl denied] initial)) \<and>
   post_promises (final (post_phase throwing_pruner rethrow plain_args ()
     \<lparr>preExecutionRules = [], postExecutionRules = ()\<rparr> Map.empty user_result initial))
     = [Promise 4 (Inr ())] \<and>
   handed_over pruner_failure 0 (final (post_phase throwing_pruner rethrow plain_args ()
     \<lparr>preExecutionRules = [], postExecutionRules = ()\<rparr> Map.empty user_result initial))"
  using failure_handed_over_as_soon_as_it_occurs
    [where pe = rethrow and calls = "[Inr (Async 1 (Inl denied)), Inr (Async 5 (Inr ()))]"
       and s = initial and res = user_result
       and cb = "plain_collaborators [] [Async 3 (Inl denied), Async 1 (Inr ())]"
       and args = plain_args and fd = "()"
       and cr = "\<lparr>preExecutionRules = [], postExecutionRules = ()\<rparr>" and vars = Map.empty
       and s' = initial]
    failure_handed_over_as_soon_as_it_occurs
    [where pe = rethrow and calls = "[Inr (Async 5 (Inr ())), Inl denied]"
       and s = initial and res = user_result and cb = throwing_pruner
       and args = plain_args and fd = "()"
       and cr = "\<lparr>preExecutionRules = [], postExecutionRules = ()\<rparr>" and vars = Map.empty
       and s' = initial]
  by (simp add: initial_def promise_of_def rejected_def user_result_def plain_collaborators_def
      throwing_pruner_def)

subsection \<open>When the result pruner runs\<close>

lemma pre_phase_events:
  "pre_phase pe calls s = (r, s') \<Longrightarrow>
   post_promises s' = post_promises s \<and>
   (\<exists>ev. trace s' = trace s @ [(now s', ev)] \<and> ev \<noteq> CleanupResult \<and> ev \<noteq> PostRulesStarted)"
  by (auto simp: pre_phase_def log_def await_def Let_def split: option.splits sum.splits)




lemma engine_returns_before_post_rules_start:
  assumes "(t, PostRulesStarted) \<in> set (trace (final (executeWrapper cb pe ex args)))"
  shows "(t, EngineReturned) \<in> set (trace (final (executeWrapper cb pe ex args))) \<and>
         (\<forall>p\<in>set (post_promises (final (executeWrapper cb pe ex args))). t \<le> settles_at p)"
proof (cases "\<exists>fd cr full. prepared cb args fd cr full")
  case False
  then have "final (executeWrapper cb pe ex args) = initial"
    by (auto simp: prepared_def executeWrapper_def Let_def split: sum.splits)
  with assms show ?thesis
    by (simp add: initial_def)
next
  case True
  then obtain fd cr full where p: "prepared cb args fd cr full"
    by blast
  obtain x s where ph: "pre_phase pe (pre_calls args cr) initial = (x, s)"
    by (cases "pre_phase pe (pre_calls args cr) initial")
  from pre_phase_events [OF ph] have
    s: "\<forall>t. (t, PostRulesStarted) \<notin> set (trace s)" "post_promises s = []"
    by (auto simp: initial_def)
  show ?thesis
  proof (cases x)
    case (Inl e)
    with p ph s assms show ?thesis
      by (simp add: executeWrapper_prepared)
  next
    case (Inr u)
    with p ph s assms show ?thesis
      by (auto simp: executeWrapper_prepared engine_phase_def post_phase_def post_body_def log_def
          await_def promise_of_def Let_def split: sum.splits option.splits)
  qed
qed




subsection \<open>What a successful operation returns\<close>

text \<open>
  Lines 73 to 85: when the operation succeeds on a result with data, the data returned is
  what \<open>cleanupResult\<close> made of the engine's data and the pre-augmentation document.
\<close>

lemma returned_data_is_cleaned:
  assumes "prepared cb args fd cr full"
    and "executeFn (args\<lparr>document := full\<rparr>) = Inr (Async d (Inr res))"
    and "data res = Some rd"
    and "outcome (executeWrapper cb pe executeFn args) = Inr r"
  shows "\<exists>fr clean. cleanupResult cb fd (schema args) fr (variables_of args) rd = Inr clean \<and>
           r = res\<lparr>data := Some clean\<rparr>"
proof -
  obtain x s where ph: "pre_phase pe (pre_calls args cr) initial = (x, s)"
    by (cases "pre_phase pe (pre_calls args cr) initial")
  with assms(1,4) obtain u where x: "x = Inr u"
    by (cases x) (simp_all add: executeWrapper_prepared)
  from assms ph x show ?thesis
    by (auto simp: executeWrapper_prepared engine_phase_def post_phase_def post_body_def Let_def
        split: sum.splits)
qed

section \<open>Properties of the modelled components\<close>

subsection \<open>Counting evaluations and occurrences\<close>












lemma compile_post_prefix:
  "compile_post sch reg parent (p # q) s =
   map (\<lambda>i. i\<lparr>path := p # path i\<rparr>) (compile_post sch reg parent q s)"
proof (induction sch reg parent q s rule: compile_post.induct)
  case (1 sch reg parent prefix f subs)
  have here: "post_instances_at reg (p # qs) names =
              map (\<lambda>i. i\<lparr>path := p # path i\<rparr>) (post_instances_at reg qs names)" for qs names
    by (induction names) (simp_all add: post_instances_at_def split: option.splits rule_definition.splits)
  from 1 show ?case
    by (simp add: here map_concat o_def cong: map_cong)
qed

lemma compile_post_below:
  "concat (map (compile_post sch reg t [f]) subs) =
   map (\<lambda>i. i\<lparr>path := f # path i\<rparr>) (concat (map (compile_post sch reg t []) subs))"
proof -
  have "compile_post sch reg t [f] =
        (\<lambda>x. map (\<lambda>i. i\<lparr>path := f # path i\<rparr>) (compile_post sch reg t [] x))"
    by (rule ext) (rule compile_post_prefix)
  then show ?thesis
    by (simp add: map_concat o_def)
qed













subsection \<open>A result that has exactly the fields of the query\<close>







subsection \<open>What a rule is evaluated on occurs in the result\<close>

lemma occurrences_not_null: "JNull \<notin> set (occurrences sch T ty v)"
  by (induction sch T ty v rule: occurrences.induct) auto

lemma expand_occurrences:
  "x \<in> set (expand w) \<Longrightarrow> x \<noteq> JNull \<Longrightarrow> x \<in> set (occurrences sch T T w)"
  by (induction w) auto

lemma inside_occurrences:
  "obj \<in> set (expand w) \<Longrightarrow> x \<in> set (inside sch T ty obj) \<Longrightarrow> x \<in> set (occurrences sch T ty w)"
  by (induction w) (auto simp: inside_def)

lemma field_of_inside:
  assumes "w \<in> set (field_of f obj)" and "x \<in> set (occurrences sch T (fieldType sch ty f) w)"
  shows "x \<in> set (inside sch T ty obj)"
proof (cases obj)
  case (JObject kvs)
  with assms(1) have "map_of kvs f = Some w"
    by (cases "map_of kvs f") simp_all
  then have "(f, w) \<in> set kvs"
    by (rule map_of_SomeD)
  with assms(2) JObject show ?thesis
    by (force simp: inside_def)
qed (use assms in simp_all)

lemma post_instances_at_member:
  "i \<in> set (post_instances_at reg here names) \<Longrightarrow> rule_name i \<in> set names \<and> path i = here"
  by (auto simp: post_instances_at_def split: option.splits rule_definition.splits)

lemma evaluated_value_occurs:
  assumes fr: "\<And>t f. R \<notin> set (fieldRules sch t f)"
    and tr: "\<And>t. R \<in> set (typeRules sch t) \<Longrightarrow> t = T"
  shows "i \<in> set (compile_post sch reg parent [] s) \<Longrightarrow> rule_name i = R \<Longrightarrow>
         x \<in> set (resolve (path i) v) \<Longrightarrow> x \<noteq> JNull \<Longrightarrow>
         \<exists>obj\<in>set (expand v). x \<in> set (inside sch T parent obj)"
proof (induction s arbitrary: parent v i)
  case (FieldNode f subs)
  let ?t = "fieldType sch parent f"
  from FieldNode.prems(1) consider
      (here) "i \<in> set (post_instances_at reg [f] (fieldRules sch parent f @ typeRules sch ?t))"
    | (sub) "i \<in> set (concat (map (compile_post sch reg ?t [f]) subs))"
    by auto
  then show ?case
  proof cases
    case here
    from post_instances_at_member [OF here] FieldNode.prems(2) fr [of parent f]
    have p: "path i = [f]" and "R \<in> set (typeRules sch ?t)"
      by auto
    from tr [OF this(2)] have t: "?t = T" .
    from FieldNode.prems(3) p obtain obj w where
      "obj \<in> set (expand v)" "w \<in> set (field_of f obj)" "x \<in> set (expand w)"
      by auto
    with FieldNode.prems(4) t show ?thesis
      by (metis expand_occurrences field_of_inside)
  next
    case sub
    then obtain j s' where j: "s' \<in> set subs" "j \<in> set (compile_post sch reg ?t [] s')"
      "i = j\<lparr>path := f # path j\<rparr>"
      by (auto simp: compile_post_below)
    with FieldNode.prems(2) have rj: "rule_name j = R"
      by simp
    from FieldNode.prems(3) j(3) obtain obj w where
      o: "obj \<in> set (expand v)" "w \<in> set (field_of f obj)" "x \<in> set (resolve (path j) w)"
      by auto
    from FieldNode.IH [OF j(1,2) rj o(3) FieldNode.prems(4)] obtain obj' where
      "obj' \<in> set (expand w)" "x \<in> set (inside sch T ?t obj')"
      by blast
    then have "x \<in> set (occurrences sch T ?t w)"
      by (rule inside_occurrences)
    with o(1,2) show ?thesis
      by (blast intro: field_of_inside)
  qed
qed

lemma evaluated_occur:
  assumes "\<And>t f. R \<notin> set (fieldRules sch t f)"
    and "\<And>t. R \<in> set (typeRules sch t) \<Longrightarrow> t = T"
  shows "set (evaluated R (scheduled (compile_post_plan sch reg sels) resultData))
           \<subseteq> set (occurrences_in sch T resultData)"
proof
  fix x
  assume "x \<in> set (evaluated R (scheduled (compile_post_plan sch reg sels) resultData))"
  then obtain i s where "s \<in> set sels" "i \<in> set (compile_post sch reg (queryType sch) [] s)"
    "rule_name i = R" "x \<in> set (resolve (path i) (JObject resultData))" "x \<noteq> JNull"
    by (auto simp: evaluated_def scheduled_def compile_post_plan_def)
  from evaluated_value_occurs [OF assms this(2-5)]
  show "x \<in> set (occurrences_in sch T resultData)"
    by (simp add: inside_def occurrences_in_def)
qed

subsection \<open>The evaluations the wrapper starts\<close>

lemma scheduled_not_null: "(i, v) \<in> set (scheduled insts resultData) \<Longrightarrow> v \<noteq> JNull"
  by (auto simp: scheduled_def)

lemma subvalues_self: "v \<in> set (subvalues v)"
  by (cases v) simp_all

lemma subvalues_trans:
  "x \<in> set (subvalues y) \<Longrightarrow> y \<in> set (subvalues z) \<Longrightarrow> x \<in> set (subvalues z)"
proof (induction z)
  case (JList vs)
  then show ?case
    by (cases "y = JList vs") auto
next
  case (JObject kvs)
  then show ?case
    by (cases "y = JObject kvs") (auto 4 4)
qed auto

lemma expand_subvalues: "x \<in> set (expand v) \<Longrightarrow> x \<in> set (subvalues v)"
  by (induction v) auto

lemma field_of_subvalues:
  assumes "w \<in> set (field_of f obj)"
  shows "w \<in> set (subvalues obj)"
proof (cases obj)
  case (JObject kvs)
  with assms have "map_of kvs f = Some w"
    by (cases "map_of kvs f") simp_all
  then have "(f, w) \<in> set kvs"
    by (rule map_of_SomeD)
  with JObject subvalues_self [of w] show ?thesis
    by force
qed (use assms in simp_all)

lemma resolve_subvalues: "x \<in> set (resolve p v) \<Longrightarrow> x \<in> set (subvalues v)"
proof (induction p arbitrary: v)
  case Nil
  then show ?case
    by (simp add: expand_subvalues)
next
  case (Cons f p)
  then obtain obj w where "obj \<in> set (expand v)" "w \<in> set (field_of f obj)" "x \<in> set (resolve p w)"
    by auto
  with Cons.IH show ?case
    by (blast intro: subvalues_trans expand_subvalues field_of_subvalues)
qed

lemma scheduled_present:
  assumes "(i, v) \<in> set (scheduled insts resultData)"
  shows "v \<in> set (subvalues (JObject resultData))"
proof -
  from assms have "v \<in> set (resolve (path i) (JObject resultData))"
    by (auto simp: scheduled_def)
  then show ?thesis
    by (rule resolve_subvalues)
qed

lemma evaluated_member: "(i, v) \<in> set evs \<Longrightarrow> rule_name i = R \<Longrightarrow> v \<in> set (evaluated R evs)"
  by (force simp: evaluated_def)

lemma compiled_plan:
  assumes "compileRules cb = compileRules_spec reg" and "prepared cb args fd cr full"
  shows "postExecutionRules cr = compile_post_plan (schema args) reg fd"
  using assms by (auto simp: prepared_def compileRules_spec_def)





subsection \<open>Null values and types without occurrence\<close>

text \<open>
  C8. Let the \<open>post\<close> rule \<open>D\<close> deny whatever it is evaluated on, and be bound to the type
  \<open>T\<close> and to nothing else. For every execution that reaches the post-execution phase with
  a result in which \<open>T\<close> has no non-null occurrence: \<open>D\<close> is never evaluated; every
  value a rule is evaluated on is not null and stands in the result; and, the evaluations
  of the other rules passing, the operation succeeds with the cleaned data. Scheduling
  never raises: it is a total function of the plan and the result.
\<close>

theorem unoccurring_denying_rule_does_not_fail_operation:
  assumes "compileRules cb = compileRules_spec reg"
    and "executePostExecRules cb = executePostExecRules_spec"
    and "prepared cb args fd cr full"
    and "pre_phase pe (pre_calls args cr) initial = (Inr u, s)"
    and "executeFn (args\<lparr>document := full\<rparr>) = Inr (Async d (Inr res))"
    and "data res = Some rd"
    and "getFragmentDefinitions cb fd = Inr fr"
    and "cleanupResult cb fd (schema args) fr (variables_of args) rd = Inr clean"
    and "reg D = Some (PostRule ev req)"
    and "\<And>ctx v whole. isl (result (ev ctx v whole))"
    and "D \<in> set (typeRules (schema args) T)"
    and "\<And>t f. D \<notin> set (fieldRules (schema args) t f)"
    and "\<And>t. D \<in> set (typeRules (schema args) t) \<Longrightarrow> t = T"
    and "occurrences_in (schema args) T rd = []"
    and "\<forall>(i, v)\<in>set (scheduled (compile_post_plan (schema args) reg fd) rd).
           rule_name i \<noteq> D \<longrightarrow> \<not> isl (result (evaluate i (contextValue args) v rd))"
  shows "evaluated D (scheduled (compile_post_plan (schema args) reg fd) rd) = [] \<and>
         (\<forall>(i, v)\<in>set (scheduled (compile_post_plan (schema args) reg fd) rd).
            v \<noteq> JNull \<and> v \<in> set (subvalues (JObject rd))) \<and>
         outcome (executeWrapper cb pe executeFn args) = Inr (res\<lparr>data := Some clean\<rparr>)"
proof -
  let ?evs = "scheduled (compile_post_plan (schema args) reg fd) rd"
  let ?ps = "map (promise_of (now s + d)) (map (\<lambda>(i, v). evaluate i (contextValue args) v rd) ?evs)"
  have plan: "postExecutionRules cr = compile_post_plan (schema args) reg fd"
    using assms(1,3) by (rule compiled_plan)
  from evaluated_occur [where R = D and sch = "schema args" and T = T and reg = reg and sels = fd
      and resultData = rd, OF assms(12,13)] assms(14)
  have never: "evaluated D ?evs = []"
    by simp
  have "\<not> isl (result (evaluate i (contextValue args) v rd))" if "(i, v) \<in> set ?evs" for i v
  proof (cases "rule_name i = D")
    case True
    with that have "v \<in> set (evaluated D ?evs)"
      by (rule evaluated_member)
    with never show ?thesis
      by simp
  next
    case False
    with assms(15) that show ?thesis
      by auto
  qed
  then have "\<forall>p\<in>set ?ps. fulfilled p"
    by (auto simp: fulfilled_def promise_of_def)
  then have "earliest_rejected ?ps = None"
    by (simp add: earliest_rejected_None fulfilled_def rejected_def)
  with assms(2-8) plan have "outcome (executeWrapper cb pe executeFn args) = Inr (res\<lparr>data := Some clean\<rparr>)"
    by (simp add: executeWrapper_prepared engine_phase_def post_phase_def post_body_def
        executePostExecRules_spec_def promise_all_def log_def await_def promise_of_def Let_def)
  with never show ?thesis
    by (auto simp del: subvalues.simps dest: scheduled_not_null scheduled_present)
qed

theorem unoccurring_denying_rule_does_not_fail_operation_witness:
  "occurrences_in test_schema ''Comment'' no_likes_data = [] \<and>
   scheduled (compile_post_plan test_schema test_rules likes_comments_query) no_likes_data = [] \<and>
   outcome (executeWrapper (test_collaborators test_rules) rethrow (mock_engine no_likes_data)
              (test_args likes_comments_query))
     = Inr \<lparr>data = Some [(''userWithLikes'', JObject [(''likes'', JList [])])], errors = []\<rparr> \<and>
   occurrences_in test_schema ''Comment'' post_without_comments_data = [] \<and>
   map (\<lambda>(i, v). rule_name i)
     (scheduled (compile_post_plan test_schema test_rules likes_comments_query)
        post_without_comments_data) = [''PassingPostExecRule''] \<and>
   evaluated ''FailingPostExecRule''
     (scheduled (compile_post_plan test_schema test_rules likes_comments_query)
        post_without_comments_data) = [] \<and>
   outcome (executeWrapper (test_collaborators test_rules) rethrow
              (mock_engine post_without_comments_data) (test_args likes_comments_query))
     = Inr \<lparr>data = Some post_without_comments_data, errors = []\<rparr>"
proof -
  let ?cb = "test_collaborators test_rules :: (unit, selection list, bound_schema, unit, unit post_instance list, unit) collaborators"
  let ?args = "test_args likes_comments_query"
  let ?q = likes_comments_query
  have 1: "compileRules ?cb = compileRules_spec test_rules"
    by (simp add: test_collaborators_def)
  have 2: "executePostExecRules ?cb = executePostExecRules_spec"
    by (simp add: test_collaborators_def)
  have 3: "prepared ?cb ?args ?q (test_plan ?q) ?q"
    by (simp add: prepared_def variables_of_def spec_defs test_defs)
  have 4: "pre_phase rethrow (pre_calls ?args (test_plan ?q)) initial = (Inr (), passed_at_once)"
    by (simp add: run_defs fixture_defs test_defs)
  have 5: "mock_engine rd (?args\<lparr>document := ?q\<rparr>) = Inr (Async 2 (Inr \<lparr>data = Some rd, errors = []\<rparr>))"
    for rd
    by (simp add: mock_engine_def)
  have 6: "data \<lparr>data = Some rd, errors = []\<rparr> = Some rd" for rd :: objmap
    by simp
  have 7: "getFragmentDefinitions ?cb ?q = Inr ()"
    by (simp add: test_collaborators_def)
  have 8: "cleanupResult ?cb ?q (schema ?args) () (variables_of ?args) rd = Inr rd" for rd
    by (simp add: test_collaborators_def)
  have 9: "test_rules ''FailingPostExecRule'' = Some (PostRule (\<lambda>ctx v whole. Async 1 (Inl denied)) [])"
    by (simp add: test_defs)
  have 10: "isl (result ((\<lambda>ctx v whole. Async 1 (Inl denied)) ctx v whole))"
    for ctx :: unit and v :: json and whole :: objmap
    by simp
  have 11: "''FailingPostExecRule'' \<in> set (typeRules (schema ?args) ''Comment'')"
    by (simp add: test_defs)
  have 12: "''FailingPostExecRule'' \<notin> set (fieldRules (schema ?args) t f)" for t f
    by (simp add: test_defs)
  have 13: "t = ''Comment''" if "''FailingPostExecRule'' \<in> set (typeRules (schema ?args) t)" for t
    using that by (simp add: test_defs split: if_splits)
  have 14: "occurrences_in (schema ?args) ''Comment'' no_likes_data = []"
    "occurrences_in (schema ?args) ''Comment'' post_without_comments_data = []"
    by (simp_all add: spec_defs test_defs)
  have 15: "scheduled (compile_post_plan (schema ?args) test_rules ?q) no_likes_data = []"
    by (simp add: spec_defs test_defs)
  have 16: "map (\<lambda>(i, v). rule_name i)
     (scheduled (compile_post_plan (schema ?args) test_rules ?q) post_without_comments_data)
       = [''PassingPostExecRule'']"
    by (simp add: spec_defs test_defs)
  have 17: "\<forall>(i, v)\<in>set (scheduled (compile_post_plan (schema ?args) test_rules ?q) no_likes_data).
              rule_name i \<noteq> ''FailingPostExecRule'' \<longrightarrow>
              \<not> isl (result (evaluate i (contextValue ?args) v no_likes_data))"
    by (simp add: 15)
  have 18: "\<forall>(i, v)\<in>set (scheduled (compile_post_plan (schema ?args) test_rules ?q)
                           post_without_comments_data).
              rule_name i \<noteq> ''FailingPostExecRule'' \<longrightarrow>
              \<not> isl (result (evaluate i (contextValue ?args) v post_without_comments_data))"
    by (simp add: spec_defs test_defs)
  have 19: "schema ?args = test_schema"
    by (simp add: test_args_def)
  from unoccurring_denying_rule_does_not_fail_operation
    [where cb = ?cb and args = ?args and executeFn = "mock_engine no_likes_data" and pe = rethrow
       and D = "''FailingPostExecRule''" and T = "''Comment''",
     OF 1 2 3 4 5 6 7 8 9 10 11 12 13 14(1) 17]
    unoccurring_denying_rule_does_not_fail_operation
    [where cb = ?cb and args = ?args and executeFn = "mock_engine post_without_comments_data"
       and pe = rethrow and D = "''FailingPostExecRule''" and T = "''Comment''",
     OF 1 2 3 4 5 6 7 8 9 10 11 12 13 14(2) 18]
    14 15 16 19
  show ?thesis
    by (simp add: no_likes_data_def)
qed

end
